theory Spec2Isabelle
  imports Main
begin

section \<open>Python string primitives used by the checker\<close>

text \<open>
  Text is a list of 8-bit code points. The whitespace set is the one of
  \<^verbatim>\<open>str.isspace\<close> below code point 256, the line boundaries are those of
  \<^verbatim>\<open>str.splitlines\<close> below code point 256.
\<close>

definition isspace :: "char \<Rightarrow> bool" where
  "isspace c = (c \<in> set [CHR 0x09, CHR 0x0A, CHR 0x0B, CHR 0x0C, CHR 0x0D,
      CHR 0x1C, CHR 0x1D, CHR 0x1E, CHR 0x1F, CHR 0x20, CHR 0x85, CHR 0xA0])"

definition is_linebreak :: "char \<Rightarrow> bool" where
  "is_linebreak c = (c \<in> set [CHR 0x0A, CHR 0x0B, CHR 0x0C, CHR 0x0D,
      CHR 0x1C, CHR 0x1D, CHR 0x1E, CHR 0x85])"

text \<open>\<^verbatim>\<open>s.startswith(p)\<close> and \<^verbatim>\<open>s.endswith(p)\<close>.\<close>

definition startswith :: "string \<Rightarrow> string \<Rightarrow> bool" where
  "startswith s p = (take (length p) s = p)"

definition endswith :: "string \<Rightarrow> string \<Rightarrow> bool" where
  "endswith s p = (length p \<le> length s \<and> drop (length s - length p) s = p)"

text \<open>\<^verbatim>\<open>s.strip()\<close>: whitespace removed at both ends.\<close>

definition strip :: "string \<Rightarrow> string" where
  "strip s = rev (dropWhile isspace (rev (dropWhile isspace s)))"

text \<open>
  \<^verbatim>\<open>s.split()\<close>: the maximal runs of non-whitespace characters, in order. The first
  argument is the token being collected.
\<close>

fun split_aux :: "string \<Rightarrow> string \<Rightarrow> string list" where
  "split_aux cur [] = (if cur = [] then [] else [cur])"
| "split_aux cur (c # cs) =
     (if isspace c then (if cur = [] then split_aux [] cs else cur # split_aux [] cs)
      else split_aux (cur @ [c]) cs)"

definition split :: "string \<Rightarrow> string list" where
  "split s = split_aux [] s"

text \<open>
  \<^verbatim>\<open>s.splitlines()\<close>: the text cut at every line boundary, \<^verbatim>\<open>\r\n\<close> counting as
  one; no empty last line after a final boundary.
\<close>

fun splitlines_aux :: "string \<Rightarrow> string \<Rightarrow> string list" where
  "splitlines_aux cur [] = (if cur = [] then [] else [cur])"
| "splitlines_aux cur [c] = (if is_linebreak c then [cur] else [cur @ [c]])"
| "splitlines_aux cur (c # d # ds) =
     (if c = CHR 0x0D \<and> d = CHR 0x0A then cur # splitlines_aux [] ds
      else if is_linebreak c then cur # splitlines_aux [] (d # ds)
      else splitlines_aux (cur @ [c]) (d # ds))"

definition splitlines :: "string \<Rightarrow> string list" where
  "splitlines s = splitlines_aux [] s"

text \<open>\<^verbatim>\<open>s.split(sep)\<close> for a one-character separator: empty pieces are kept.\<close>

fun split_on :: "char \<Rightarrow> string \<Rightarrow> string list" where
  "split_on sep [] = [[]]"
| "split_on sep (c # cs) =
     (if c = sep then [] # split_on sep cs
      else (case split_on sep cs of [] \<Rightarrow> [[c]] | x # xs \<Rightarrow> (c # x) # xs))"

text \<open>\<^verbatim>\<open>sep.join(xs)\<close>.\<close>

fun join_with :: "string \<Rightarrow> string list \<Rightarrow> string" where
  "join_with sep [] = []"
| "join_with sep [x] = x"
| "join_with sep (x # y # ys) = x @ sep @ join_with sep (y # ys)"

section \<open>pathlib and os.path on POSIX\<close>

text \<open>
  A \<^verbatim>\<open>PurePosixPath\<close> is its root (\<^verbatim>\<open>''\<close>, \<^verbatim>\<open>'/'\<close> or \<^verbatim>\<open>'//'\<close>) and the list
  of its components after the root. Exactly two leading slashes are kept as the root
  \<^verbatim>\<open>'//'\<close>; any other number of them is the root \<^verbatim>\<open>'/'\<close>. Empty components and
  \<^verbatim>\<open>'.'\<close> are dropped when the path is built, \<^verbatim>\<open>'..'\<close> is kept.
\<close>

record path =
  p_root :: string
  p_tail :: "string list"

definition splitroot :: "string \<Rightarrow> string \<times> string" where
  "splitroot part =
     (if part \<noteq> [] \<and> hd part = CHR ''/'' then
        (let stripped_part = dropWhile (\<lambda>c. c = CHR ''/'') part in
         if length part - length stripped_part = 2 then (''//'', stripped_part)
         else (''/'', stripped_part))
      else ('''', part))"

definition Path :: "string \<Rightarrow> path" where
  "Path s = (let (r, rel) = splitroot s in
     \<lparr>p_root = r, p_tail = filter (\<lambda>x. x \<noteq> [] \<and> x \<noteq> ''.'') (split_on CHR ''/'' rel)\<rparr>)"

text \<open>\<^verbatim>\<open>str(p)\<close>, which is what \<^verbatim>\<open>os.fspath\<close> hands to \<^verbatim>\<open>os.path.join\<close>.\<close>

definition path_str :: "path \<Rightarrow> string" where
  "path_str p = (if p_root p = [] \<and> p_tail p = [] then ''.''
     else p_root p @ join_with ''/'' (p_tail p))"

text \<open>\<^verbatim>\<open>p.parent\<close>: a path without components is its own parent.\<close>

definition parent :: "path \<Rightarrow> path" where
  "parent p = (if p_tail p = [] then p else p\<lparr>p_tail := butlast (p_tail p)\<rparr>)"

text \<open>
  \<^verbatim>\<open>os.path.join(a, *p)\<close>: a component that starts with a slash discards what was
  joined before it.
\<close>

definition join_step :: "string \<Rightarrow> string \<Rightarrow> string" where
  "join_step path b =
     (if startswith b ''/'' then b
      else if path = [] \<or> endswith path ''/'' then path @ b
      else path @ ''/'' @ b)"

definition os_path_join :: "string \<Rightarrow> string list \<Rightarrow> string" where
  "os_path_join a p = foldl join_step a p"

section \<open>Storage and observable effects\<close>

text \<open>
  What \<^verbatim>\<open>open(file_path, 'r', encoding='utf-8')\<close> followed by \<^verbatim>\<open>f.read()\<close> gives:
  the decoded text, \<^verbatim>\<open>FileNotFoundError\<close>, or any other exception with its message.
\<close>

datatype read_result = Content string | File_not_found | Read_error string

type_synonym filesystem = "string \<Rightarrow> read_result"

text \<open>
  One event for every attempt to open a file and for every \<^verbatim>\<open>print\<close> statement of
  the checker, carrying the values the statement interpolates. The log of a run is the
  list of its events, oldest first; it is the only state the checker has.
\<close>

datatype event =
    Open_file string
  | Print_line string
  | Print_error_reading string string
  | Print_current_path string
  | Print_codeowners_path string
  | Print_no_approvals
  | Print_approvers "string list"
  | Print_no_files_changed
  | Print_changed_files nat
  | Print_changed_file string
  | Print_checking string
  | Print_no_codeowners_found
  | Print_required_owners "string set"
  | Print_authorized "string set"
  | Print_no_authorized
  | Print_required "string set"
  | Print_actual "string list"
  | Print_validation_failed
  | Print_files_lack_approval
  | Print_validation_passed
  | Print_all_files_approved

type_synonym log = "event list"

text \<open>The files a log shows as opened, in order.\<close>

fun opened :: "log \<Rightarrow> string list" where
  "opened [] = []"
| "opened (Open_file p # es) = p # opened es"
| "opened (e # es) = opened es"

section \<open>read\_codeowners\_file\<close>

text \<open>The body of the loop over the words of a line.\<close>

definition add_word :: "string set \<Rightarrow> string \<Rightarrow> string set" where
  "add_word owners word =
     (if startswith word ''@'' then insert (drop 1 word) owners
      else if word \<noteq> [] \<and> \<not> startswith word ''/'' \<and> \<not> startswith word ''*''
        then insert word owners
      else owners)"

text \<open>The body of the loop over the lines of the file.\<close>

definition scan_line :: "string set \<Rightarrow> string \<Rightarrow> string set" where
  "scan_line owners line0 =
     (let line = strip line0 in
      if line = [] \<or> startswith line ''#'' then owners
      else foldl add_word owners (split line))"

definition parse_content :: "string \<Rightarrow> string set" where
  "parse_content content = foldl scan_line {} (splitlines content)"

definition read_codeowners_file :: "filesystem \<Rightarrow> string \<Rightarrow> log \<Rightarrow> string set \<times> log" where
  "read_codeowners_file fs file_path lg =
     (case fs file_path of
        Content content \<Rightarrow>
          (parse_content content,
           lg @ [Open_file file_path] @ map Print_line (splitlines content))
      | File_not_found \<Rightarrow> ({}, lg @ [Open_file file_path])
      | Read_error e \<Rightarrow> ({}, lg @ [Open_file file_path, Print_error_reading file_path e]))"

section \<open>get\_codeowners\_for\_file\<close>

text \<open>
  The \<^verbatim>\<open>while True\<close> loop over the directory and its parents. Its state is
  \<^verbatim>\<open>current_path\<close>, \<^verbatim>\<open>all_owners\<close> and the log; \<open>None\<close> is a loop that never
  reaches its \<^verbatim>\<open>break\<close>.
\<close>

partial_function (option) walk ::
  "filesystem \<Rightarrow> string \<Rightarrow> path \<Rightarrow> string set \<Rightarrow> log \<Rightarrow> (string set \<times> log) option" where
  "walk fs ci_project_dir current_path all_owners lg =
     (let codeowners_path =
            os_path_join ci_project_dir [path_str current_path, ''CODEOWNERS.md''];
          r = read_codeowners_file fs codeowners_path
                (lg @ [Print_codeowners_path codeowners_path])
      in if current_path = Path ''.'' \<or> current_path = Path ''/''
         then Some (all_owners \<union> fst r, snd r)
         else walk fs ci_project_dir (parent current_path) (all_owners \<union> fst r) (snd r))"

declare walk.simps [code]

definition get_codeowners_for_file ::
  "filesystem \<Rightarrow> string \<Rightarrow> string \<Rightarrow> log \<Rightarrow> (string set \<times> log) option" where
  "get_codeowners_for_file fs ci_project_dir file_path lg =
     (let current_path = parent (Path file_path) in
      case walk fs ci_project_dir current_path {}
             (lg @ [Print_current_path (path_str current_path)]) of
        None \<Rightarrow> None
      | Some (all_owners, lg1) \<Rightarrow>
          (let root_codeowners = os_path_join ci_project_dir [''CODEOWNERS.md''];
               r = read_codeowners_file fs root_codeowners lg1
           in Some (all_owners \<union> fst r, snd r)))"

section \<open>validate\_approvals\<close>

text \<open>
  The three calls to the GitLab API are collaborators: their results, the approvers and
  the changed files, are parameters, and the banner printed from the merge request
  details is left out. The loop over the changed files carries \<^verbatim>\<open>validation_failed\<close>
  and the log.
\<close>

fun check_files ::
  "filesystem \<Rightarrow> string \<Rightarrow> string list \<Rightarrow> string list \<Rightarrow> bool \<Rightarrow> log \<Rightarrow> (bool \<times> log) option" where
  "check_files fs ci_project_dir approvers [] validation_failed lg =
     Some (validation_failed, lg)"
| "check_files fs ci_project_dir approvers (file_path # rest) validation_failed lg =
     (case get_codeowners_for_file fs ci_project_dir file_path
             (lg @ [Print_checking file_path]) of
        None \<Rightarrow> None
      | Some (file_owners, lg1) \<Rightarrow>
          if file_owners = {} then
            check_files fs ci_project_dir approvers rest validation_failed
              (lg1 @ [Print_no_codeowners_found])
          else
            (let lg2 = lg1 @ [Print_required_owners file_owners];
                 authorized_approvers = set approvers \<inter> file_owners
             in if authorized_approvers \<noteq> {} then
                  check_files fs ci_project_dir approvers rest validation_failed
                    (lg2 @ [Print_authorized authorized_approvers])
                else
                  check_files fs ci_project_dir approvers rest True
                    (lg2 @ [Print_no_authorized, Print_required file_owners,
                            Print_actual approvers])))"

definition validate_approvals ::
  "filesystem \<Rightarrow> string \<Rightarrow> string list \<Rightarrow> string list \<Rightarrow> log \<Rightarrow> (bool \<times> log) option" where
  "validate_approvals fs ci_project_dir approvers changed_files lg =
     (if approvers = [] then Some (False, lg @ [Print_no_approvals])
      else if changed_files = [] then
        Some (True, lg @ [Print_approvers approvers, Print_no_files_changed])
      else
        (case check_files fs ci_project_dir approvers changed_files False
                (lg @ [Print_approvers approvers, Print_changed_files (length changed_files)]
                    @ map Print_changed_file changed_files) of
           None \<Rightarrow> None
         | Some (validation_failed, lg1) \<Rightarrow>
             if validation_failed then
               Some (False, lg1 @ [Print_validation_failed, Print_files_lack_approval])
             else Some (True, lg1 @ [Print_validation_passed, Print_all_files_approved])))"

section \<open>Derived notions used in the statements\<close>

text \<open>
  What one call of \<open>read_codeowners_file\<close> contributes, apart from the log it extends:
  the owners it returns and the events it adds. Then the manifest location of a
  directory, the directories the walk visits from a path up to its root (\<open>chain_rev\<close>
  takes the components last first), the location of the root manifest, and for one
  resolution that ends: the locations it opens, the events it adds and the owners it
  returns. Last, the verdict on one changed file.
\<close>

definition declared_owners :: "filesystem \<Rightarrow> string \<Rightarrow> string set" where
  "declared_owners fs loc = fst (read_codeowners_file fs loc [])"

definition read_events :: "filesystem \<Rightarrow> string \<Rightarrow> log" where
  "read_events fs loc = snd (read_codeowners_file fs loc [])"

definition manifest_location :: "string \<Rightarrow> path \<Rightarrow> string" where
  "manifest_location ci_project_dir d = os_path_join ci_project_dir [path_str d, ''CODEOWNERS.md'']"

definition visit_events :: "filesystem \<Rightarrow> string \<Rightarrow> path \<Rightarrow> log" where
  "visit_events fs ci_project_dir d =
     Print_codeowners_path (manifest_location ci_project_dir d)
       # read_events fs (manifest_location ci_project_dir d)"

fun chain_rev :: "string \<Rightarrow> string list \<Rightarrow> path list" where
  "chain_rev r [] = [\<lparr>p_root = r, p_tail = []\<rparr>]"
| "chain_rev r (x # xs) = \<lparr>p_root = r, p_tail = rev (x # xs)\<rparr> # chain_rev r xs"

definition ancestors :: "path \<Rightarrow> path list" where
  "ancestors p = chain_rev (p_root p) (rev (p_tail p))"

definition root_location :: "string \<Rightarrow> string" where
  "root_location ci_project_dir = os_path_join ci_project_dir [''CODEOWNERS.md'']"

definition resolve_locations :: "string \<Rightarrow> string \<Rightarrow> string list" where
  "resolve_locations ci_project_dir file_path =
     map (manifest_location ci_project_dir) (ancestors (parent (Path file_path)))
       @ [root_location ci_project_dir]"

definition resolve_events :: "filesystem \<Rightarrow> string \<Rightarrow> string \<Rightarrow> log" where
  "resolve_events fs ci_project_dir file_path =
     Print_current_path (path_str (parent (Path file_path)))
       # concat (map (visit_events fs ci_project_dir) (ancestors (parent (Path file_path))))
       @ read_events fs (root_location ci_project_dir)"

definition resolved_owners :: "filesystem \<Rightarrow> string \<Rightarrow> string \<Rightarrow> string set" where
  "resolved_owners fs ci_project_dir file_path =
     (\<Union>loc \<in> set (resolve_locations ci_project_dir file_path). declared_owners fs loc)"

definition file_fails :: "filesystem \<Rightarrow> string \<Rightarrow> string list \<Rightarrow> string \<Rightarrow> bool" where
  "file_fails fs ci_project_dir approvers file_path =
     (case get_codeowners_for_file fs ci_project_dir file_path [] of
        None \<Rightarrow> False
      | Some (file_owners, lg) \<Rightarrow> file_owners \<noteq> {} \<and> set approvers \<inter> file_owners = {})"

text \<open>
  Two storage fixtures with \<^verbatim>\<open>CI_PROJECT_DIR\<close> set to \<^verbatim>\<open>'.'\<close>: a root manifest
  declaring \<^verbatim>\<open>@alice\<close>, alone and together with a manifest in \<^verbatim>\<open>src\<close>
  declaring \<^verbatim>\<open>@bob\<close>. The root manifest is reached under both spellings the
  resolver uses for it.
\<close>

definition scenario_root_only :: filesystem where
  "scenario_root_only loc =
     (if loc = ''./CODEOWNERS.md'' \<or> loc = ''././CODEOWNERS.md'' then Content ''@alice''
      else File_not_found)"

definition scenario_with_src :: filesystem where
  "scenario_with_src loc =
     (if loc = ''./CODEOWNERS.md'' \<or> loc = ''././CODEOWNERS.md'' then Content ''@alice''
      else if loc = ''./src/CODEOWNERS.md'' then Content ''@bob''
      else File_not_found)"

text \<open>
  A third fixture: the manifest in \<^verbatim>\<open>src\<close> exists but cannot be read.
\<close>

definition scenario_unreadable_src :: filesystem where
  "scenario_unreadable_src loc =
     (if loc = ''./CODEOWNERS.md'' \<or> loc = ''././CODEOWNERS.md'' then Content ''@alice''
      else if loc = ''./src/CODEOWNERS.md'' then Read_error ''Permission denied''
      else File_not_found)"

text \<open>The files opened between two states of the log.\<close>

definition reads_between :: "log \<Rightarrow> log \<Rightarrow> string list" where
  "reads_between lg lg' = opened (drop (length lg) lg')"

text \<open>
  Two calls of \<^verbatim>\<open>get_codeowners_for_file\<close> for the same file, one after the other
  in the same run: the files the second call opens.
\<close>

definition second_resolution_reads ::
  "filesystem \<Rightarrow> string \<Rightarrow> string \<Rightarrow> log \<Rightarrow> string list option" where
  "second_resolution_reads fs ci_project_dir file_path lg =
     (case get_codeowners_for_file fs ci_project_dir file_path lg of
        None \<Rightarrow> None
      | Some (owners1, lg1) \<Rightarrow>
          (case get_codeowners_for_file fs ci_project_dir file_path lg1 of
             None \<Rightarrow> None
           | Some (owners2, lg2) \<Rightarrow> Some (reads_between lg1 lg2)))"

text \<open>
  The parser as the specification words it: the owners a token stands for, the lines
  that are kept after trimming, and the set built from every token of every kept line.
\<close>

definition token_owner :: "string \<Rightarrow> string set" where
  "token_owner t =
     (if startswith t ''@'' then {drop 1 t}
      else if startswith t ''/'' \<or> startswith t ''*'' then {}
      else {t})"

definition kept_lines :: "string \<Rightarrow> string list" where
  "kept_lines content =
     filter (\<lambda>l. l \<noteq> [] \<and> \<not> startswith l ''#'') (map strip (splitlines content))"

definition parse_spec :: "string \<Rightarrow> string set" where
  "parse_spec content = (\<Union>l \<in> set (kept_lines content). \<Union>t \<in> set (split l). token_owner t)"

text \<open>A fourth fixture: storage without any manifest.\<close>

definition scenario_empty :: filesystem where
  "scenario_empty loc = File_not_found"

text \<open>
  Where a location lies relative to the project directory, read off the strings as
  \<^verbatim>\<open>os.path.normpath\<close> would: empty components and \<^verbatim>\<open>'.'\<close> are dropped, \<^verbatim>\<open>'..'\<close>
  cancels the component before it, stays in front of a relative path and is dropped at
  the root of an absolute one. A location is at or below the directory when both are
  absolute or both relative, the directory's components are a prefix of the location's,
  and what follows does not climb.
\<close>

definition is_abs :: "string \<Rightarrow> bool" where
  "is_abs s = startswith s ''/''"

definition norm_step :: "bool \<Rightarrow> string list \<Rightarrow> string \<Rightarrow> string list" where
  "norm_step absolute comps c =
     (if c = [] \<or> c = ''.'' then comps
      else if c = ''..'' \<and> comps \<noteq> [] \<and> last comps \<noteq> ''..'' then butlast comps
      else if c = ''..'' \<and> comps = [] \<and> absolute then comps
      else comps @ [c])"

definition normal_components :: "string \<Rightarrow> string list" where
  "normal_components s = foldl (norm_step (is_abs s)) [] (split_on CHR ''/'' s)"

definition at_or_below :: "string \<Rightarrow> string \<Rightarrow> bool" where
  "at_or_below root_dir loc =
     (is_abs loc = is_abs root_dir \<and>
      (let r = normal_components root_dir; l = normal_components loc
       in take (length r) l = r \<and>
          (case drop (length r) l of [] \<Rightarrow> True | c # cs \<Rightarrow> c \<noteq> ''..'')))"

text \<open>The files one resolution opens, starting from an empty log.\<close>

definition locations_read :: "filesystem \<Rightarrow> string \<Rightarrow> string \<Rightarrow> string list option" where
  "locations_read fs ci_project_dir file_path =
     (case get_codeowners_for_file fs ci_project_dir file_path [] of
        None \<Rightarrow> None
      | Some (owners, lg) \<Rightarrow> Some (opened lg))"

section \<open>The ancestor walk\<close>

lemma read_codeowners_file_log:
  "read_codeowners_file fs loc lg = (declared_owners fs loc, lg @ read_events fs loc)"
  by (simp add: read_codeowners_file_def declared_owners_def read_events_def
      split: read_result.split)

lemma Path_dot: "Path ''.'' = \<lparr>p_root = [], p_tail = []\<rparr>"
  by (simp add: Path_def splitroot_def)

lemma Path_slash: "Path ''/'' = \<lparr>p_root = ''/'', p_tail = []\<rparr>"
  by (simp add: Path_def splitroot_def)

lemma walk_unfold:
  "walk fs dir d acc lg =
     (if d = \<lparr>p_root = [], p_tail = []\<rparr> \<or> d = \<lparr>p_root = ''/'', p_tail = []\<rparr>
      then Some (acc \<union> declared_owners fs (manifest_location dir d), lg @ visit_events fs dir d)
      else walk fs dir (parent d) (acc \<union> declared_owners fs (manifest_location dir d))
             (lg @ visit_events fs dir d))"
  by (subst walk.simps)
     (simp add: Let_def read_codeowners_file_log Path_dot Path_slash manifest_location_def
        visit_events_def)

lemma walk_chain:
  assumes "r = [] \<or> r = ''/''"
  shows "walk fs dir \<lparr>p_root = r, p_tail = rev xs\<rparr> acc lg =
     Some (acc \<union> (\<Union>d \<in> set (chain_rev r xs). declared_owners fs (manifest_location dir d)),
           lg @ concat (map (visit_events fs dir) (chain_rev r xs)))"
proof (induction xs arbitrary: acc lg)
  case Nil
  from assms show ?case by (subst walk_unfold) auto
next
  case (Cons x xs)
  have par: "parent \<lparr>p_root = r, p_tail = rev (x # xs)\<rparr> = \<lparr>p_root = r, p_tail = rev xs\<rparr>"
    by (simp add: parent_def)
  show ?case
    by (subst walk_unfold) (simp add: par Cons.IH Un_assoc del: rev.simps)
qed

lemma walk_returns_only_from_root:
  assumes ret: "walk fs dir d acc lg = Some y"
  shows "p_root d = [] \<or> p_root d = ''/''"
proof (rule walk.raw_induct [where P = "\<lambda>fs dir d acc lg y. p_root d = [] \<or> p_root d = ''/''", OF _ ret])
  fix f fs dir d acc lg y
  assume IH: "\<And>fs dir d acc lg y. f fs dir d acc lg = Some y \<Longrightarrow> p_root d = [] \<or> p_root d = ''/''"
    and eq: "(let codeowners_path = os_path_join dir [path_str d, ''CODEOWNERS.md''];
          r = read_codeowners_file fs codeowners_path (lg @ [Print_codeowners_path codeowners_path])
      in if d = Path ''.'' \<or> d = Path ''/'' then Some (acc \<union> fst r, snd r)
         else f fs dir (parent d) (acc \<union> fst r) (snd r)) = Some y"
  show "p_root d = [] \<or> p_root d = ''/''"
  proof (cases "d = Path ''.'' \<or> d = Path ''/''")
    case True
    then show ?thesis by (auto simp: Path_dot Path_slash)
  next
    case False
    with eq obtain acc' lg' where "f fs dir (parent d) acc' lg' = Some y"
      by (auto simp: Let_def)
    then have "p_root (parent d) = [] \<or> p_root (parent d) = ''/''" by (rule IH)
    then show ?thesis by (simp add: parent_def split: if_splits)
  qed
qed

lemma p_root_Path: "p_root (Path s) = [] \<or> p_root (Path s) = ''/'' \<or> p_root (Path s) = ''//''"
  by (simp add: Path_def splitroot_def Let_def)

lemma p_root_parent: "p_root (parent p) = p_root p"
  by (simp add: parent_def)

lemma walk_ancestors:
  assumes "p_root p = [] \<or> p_root p = ''/''"
  shows "walk fs dir p acc lg =
     Some (acc \<union> (\<Union>d \<in> set (ancestors p). declared_owners fs (manifest_location dir d)),
           lg @ concat (map (visit_events fs dir) (ancestors p)))"
proof (cases p)
  case (fields r t)
  with assms have "r = [] \<or> r = ''/''" by simp
  from walk_chain [OF this, of fs dir "rev t" acc lg] fields
  show ?thesis by (simp add: ancestors_def)
qed

lemma get_codeowners_returns:
  assumes "p_root (Path file_path) \<noteq> ''//''"
  shows "get_codeowners_for_file fs dir file_path lg =
     Some (resolved_owners fs dir file_path, lg @ resolve_events fs dir file_path)"
proof -
  from assms p_root_Path [of file_path]
  have "p_root (parent (Path file_path)) = [] \<or> p_root (parent (Path file_path)) = ''/''"
    by (auto simp: p_root_parent)
  then show ?thesis
    by (simp add: get_codeowners_for_file_def Let_def walk_ancestors read_codeowners_file_log
        resolved_owners_def resolve_locations_def resolve_events_def root_location_def Un_commute)
qed

lemma get_codeowners_diverges:
  assumes "p_root (Path file_path) = ''//''"
  shows "get_codeowners_for_file fs dir file_path lg = None"
proof -
  let ?d = "parent (Path file_path)"
  have "walk fs dir ?d {} (lg @ [Print_current_path (path_str ?d)]) = None"
  proof (cases "walk fs dir ?d {} (lg @ [Print_current_path (path_str ?d)])")
    case None
    then show ?thesis .
  next
    case (Some y)
    then have "p_root ?d = [] \<or> p_root ?d = ''/''" by (rule walk_returns_only_from_root)
    with assms show ?thesis by (simp add: p_root_parent)
  qed
  then show ?thesis by (simp add: get_codeowners_for_file_def Let_def)
qed

lemma opened_append: "opened (xs @ ys) = opened xs @ opened ys"
  by (induction xs rule: opened.induct) simp_all

lemma opened_Print_line: "opened (map Print_line ls) = []"
  by (induction ls) simp_all

lemma opened_read_events: "opened (read_events fs loc) = [loc]"
  by (simp add: read_events_def read_codeowners_file_def opened_append opened_Print_line
      split: read_result.split)

lemma opened_visits:
  "opened (concat (map (visit_events fs dir) ds)) = map (manifest_location dir) ds"
  by (induction ds) (simp_all add: opened_append visit_events_def opened_read_events)

lemma opened_resolve_events: "opened (resolve_events fs dir file_path) = resolve_locations dir file_path"
  by (simp add: resolve_events_def resolve_locations_def opened_append opened_visits
      opened_read_events)

lemma file_fails_iff:
  assumes "p_root (Path file_path) \<noteq> ''//''"
  shows "file_fails fs dir approvers file_path \<longleftrightarrow>
     resolved_owners fs dir file_path \<noteq> {} \<and> set approvers \<inter> resolved_owners fs dir file_path = {}"
  using assms by (simp add: file_fails_def get_codeowners_returns)

lemma check_files_result:
  assumes "\<forall>f \<in> set files. p_root (Path f) \<noteq> ''//''"
  shows "\<exists>ext. check_files fs dir approvers files failed lg =
     Some (failed \<or> (\<exists>f \<in> set files. file_fails fs dir approvers f), lg @ ext)"
  using assms
proof (induction files arbitrary: failed lg)
  case Nil
  then show ?case by simp
next
  case (Cons f files)
  from Cons.prems have f: "p_root (Path f) \<noteq> ''//''" and rest: "\<forall>f \<in> set files. p_root (Path f) \<noteq> ''//''"
    by simp_all
  note IH = Cons.IH [OF rest]
  let ?lg1 = "(lg @ [Print_checking f]) @ resolve_events fs dir f"
  let ?own = "resolved_owners fs dir f"
  have get: "get_codeowners_for_file fs dir f (lg @ [Print_checking f]) = Some (?own, ?lg1)"
    using f by (rule get_codeowners_returns)
  consider (none) "?own = {}" | (ok) "?own \<noteq> {}" "set approvers \<inter> ?own \<noteq> {}"
    | (bad) "?own \<noteq> {}" "set approvers \<inter> ?own = {}" by blast
  then show ?case
  proof cases
    case none
    from IH [of failed "?lg1 @ [Print_no_codeowners_found]"] obtain ext where
      "check_files fs dir approvers files failed (?lg1 @ [Print_no_codeowners_found]) =
         Some (failed \<or> (\<exists>f \<in> set files. file_fails fs dir approvers f),
               (?lg1 @ [Print_no_codeowners_found]) @ ext)" by blast
    with none get f show ?thesis by (simp add: file_fails_iff)
  next
    case ok
    let ?lg2 = "(?lg1 @ [Print_required_owners ?own]) @ [Print_authorized (set approvers \<inter> ?own)]"
    from IH [of failed ?lg2] obtain ext where
      "check_files fs dir approvers files failed ?lg2 =
         Some (failed \<or> (\<exists>f \<in> set files. file_fails fs dir approvers f), ?lg2 @ ext)" by blast
    with ok get f show ?thesis by (simp add: file_fails_iff Let_def)
  next
    case bad
    let ?lg2 = "(?lg1 @ [Print_required_owners ?own]) @
        [Print_no_authorized, Print_required ?own, Print_actual approvers]"
    from IH [of True ?lg2] obtain ext where
      "check_files fs dir approvers files True ?lg2 =
         Some (True \<or> (\<exists>f \<in> set files. file_fails fs dir approvers f), ?lg2 @ ext)" by blast
    with bad get f show ?thesis by (simp add: file_fails_iff Let_def)
  qed
qed

section \<open>Validation\<close>

text \<open>
  C1. For a non-empty list of changed files and a non-empty list of approvers,
  \<open>validate_approvals\<close> returns, and its result is \<open>True\<close> exactly when no changed
  file fails, where a file fails when its resolved owner set is non-empty and shares no
  member with the approvers. A file with an empty resolved owner set does not fail. The
  resolver returns for every path that does not begin with exactly two slashes, which is
  the third hypothesis.
\<close>

theorem validate_pass_iff_no_file_fails:
  assumes "approvers \<noteq> []" and "changed_files \<noteq> []"
    and "\<forall>f \<in> set changed_files. p_root (Path f) \<noteq> ''//''"
  shows "\<exists>lg'. validate_approvals fs dir approvers changed_files lg =
       Some (\<not> (\<exists>f \<in> set changed_files. file_fails fs dir approvers f), lg')"
proof -
  let ?lg0 = "lg @ [Print_approvers approvers, Print_changed_files (length changed_files)]
                 @ map Print_changed_file changed_files"
  from check_files_result [OF assms(3), of fs dir approvers False ?lg0] obtain ext where
    "check_files fs dir approvers changed_files False ?lg0 =
       Some (False \<or> (\<exists>f \<in> set changed_files. file_fails fs dir approvers f), ?lg0 @ ext)"
    by blast
  with assms(1,2) show ?thesis by (simp add: validate_approvals_def)
qed


theorem validate_pass_iff_no_file_fails_witness:
  "[''bob''] \<noteq> [] \<and> [''src/sub/b.txt'', ''a.txt''] \<noteq> []
   \<and> p_root (Path ''src/sub/b.txt'') \<noteq> ''//'' \<and> p_root (Path ''a.txt'') \<noteq> ''//''
   \<and> file_fails scenario_with_src ''.'' [''bob''] ''a.txt''
   \<and> (\<exists>lg'. validate_approvals scenario_with_src ''.'' [''bob''] [''src/sub/b.txt'', ''a.txt''] []
          = Some (False, lg'))"
proof -
  have ne: "[''bob''] \<noteq> []" "[''src/sub/b.txt'', ''a.txt''] \<noteq> []" by simp_all
  have ok: "\<forall>f \<in> set [''src/sub/b.txt'', ''a.txt'']. p_root (Path f) \<noteq> ''//''" by code_simp
  have bad: "file_fails scenario_with_src ''.'' [''bob''] ''a.txt''" by code_simp
  from validate_pass_iff_no_file_fails [OF ne ok, of scenario_with_src "''.''" "[]"] bad ok
  show ?thesis by simp
qed

section \<open>Resolution\<close>

text \<open>
  C2. Whenever the resolver returns an owner set for a file, the owners declared in the
  manifest at the repository root are in it, whatever the depth of the file; and it
  returns for every path that does not begin with exactly two slashes.
\<close>

theorem root_owners_in_every_resolved_set:
  "(p_root (Path file_path) \<noteq> ''//'' \<longrightarrow>
      (\<exists>owners lg'. get_codeowners_for_file fs dir file_path lg = Some (owners, lg')))
   \<and> (\<forall>owners lg'. get_codeowners_for_file fs dir file_path lg = Some (owners, lg') \<longrightarrow>
          declared_owners fs (root_location dir) \<subseteq> owners)"
proof (intro conjI impI allI)
  assume "p_root (Path file_path) \<noteq> ''//''"
  then show "\<exists>owners lg'. get_codeowners_for_file fs dir file_path lg = Some (owners, lg')"
    by (simp add: get_codeowners_returns)
next
  fix owners lg'
  assume "get_codeowners_for_file fs dir file_path lg = Some (owners, lg')"
  then show "declared_owners fs (root_location dir) \<subseteq> owners"
    by (auto simp: get_codeowners_for_file_def Let_def read_codeowners_file_log root_location_def
        split: option.splits)
qed

theorem root_owners_in_every_resolved_set_witness:
  "p_root (Path ''src/sub/b.txt'') \<noteq> ''//''
   \<and> declared_owners scenario_with_src (root_location ''.'') = {''alice''}
   \<and> (\<exists>owners lg'. get_codeowners_for_file scenario_with_src ''.'' ''src/sub/b.txt'' [] = Some (owners, lg')
         \<and> ''alice'' \<in> owners)"
proof -
  have ok: "p_root (Path ''src/sub/b.txt'') \<noteq> ''//''" by code_simp
  have root: "declared_owners scenario_with_src (root_location ''.'') = {''alice''}" by code_simp
  from root_owners_in_every_resolved_set [of "''src/sub/b.txt''" scenario_with_src "''.''" "[]"] ok root
  show ?thesis by auto
qed

section \<open>Resolution is a union\<close>

lemma get_codeowners_Some_iff:
  "get_codeowners_for_file fs dir f lg = Some (owners, lg') \<longleftrightarrow>
     p_root (Path f) \<noteq> ''//'' \<and> owners = resolved_owners fs dir f
       \<and> lg' = lg @ resolve_events fs dir f"
proof (cases "p_root (Path f) = ''//''")
  case True
  then show ?thesis by (simp add: get_codeowners_diverges)
next
  case False
  then show ?thesis by (auto simp: get_codeowners_returns)
qed

lemma resolved_owners_mono:
  assumes "\<forall>loc. declared_owners fs loc \<subseteq> declared_owners fs' loc"
  shows "resolved_owners fs dir f \<subseteq> resolved_owners fs' dir f"
  using assms by (fastforce simp: resolved_owners_def)

text \<open>
  C3. Resolution is a plain union over the ancestor chain. Whenever the resolver returns,
  its owner set is the union of the owners declared at every manifest location it read,
  those locations depend on the path and the project directory only, and a storage state
  that declares at least as much at every location resolves the same file to a superset.
  No manifest hides another one.
\<close>

theorem resolution_is_monotone_union:
  assumes "get_codeowners_for_file fs dir file_path lg = Some (owners, lg1)"
  shows "owners = (\<Union>loc \<in> set (reads_between lg lg1). declared_owners fs loc)
    \<and> reads_between lg lg1 = resolve_locations dir file_path
    \<and> ((\<forall>loc. declared_owners fs loc \<subseteq> declared_owners fs' loc) \<longrightarrow>
         (\<exists>owners' lg2. get_codeowners_for_file fs' dir file_path lg = Some (owners', lg2)
            \<and> owners \<subseteq> owners'))"
proof -
  from assms have ok: "p_root (Path file_path) \<noteq> ''//''"
    and own: "owners = resolved_owners fs dir file_path"
    and lg1: "lg1 = lg @ resolve_events fs dir file_path"
    by (simp_all add: get_codeowners_Some_iff)
  from lg1 have reads: "reads_between lg lg1 = resolve_locations dir file_path"
    by (simp add: reads_between_def opened_resolve_events)
  from own reads have union: "owners = (\<Union>loc \<in> set (reads_between lg lg1). declared_owners fs loc)"
    by (simp add: resolved_owners_def)
  have mono: "(\<forall>loc. declared_owners fs loc \<subseteq> declared_owners fs' loc) \<longrightarrow>
         (\<exists>owners' lg2. get_codeowners_for_file fs' dir file_path lg = Some (owners', lg2)
            \<and> owners \<subseteq> owners')"
    using ok own by (auto simp: get_codeowners_returns dest: resolved_owners_mono)
  from union reads mono show ?thesis by blast
qed

theorem resolution_is_monotone_union_witness:
  "\<exists>lg1 owners' lg2.
      get_codeowners_for_file scenario_root_only ''.'' ''src/sub/b.txt'' [] = Some ({''alice''}, lg1)
    \<and> {''alice''} = (\<Union>loc \<in> set (reads_between [] lg1). declared_owners scenario_root_only loc)
    \<and> get_codeowners_for_file scenario_with_src ''.'' ''src/sub/b.txt'' [] = Some (owners', lg2)
    \<and> {''alice''} \<subseteq> owners'"
proof -
  have "map_option fst (get_codeowners_for_file scenario_root_only ''.'' ''src/sub/b.txt'' [])
          = Some {''alice''}"
    by code_simp
  then obtain lg1 where
    h: "get_codeowners_for_file scenario_root_only ''.'' ''src/sub/b.txt'' [] = Some ({''alice''}, lg1)"
    by auto
  have grow: "\<forall>loc. declared_owners scenario_root_only loc \<subseteq> declared_owners scenario_with_src loc"
    by (simp add: declared_owners_def read_codeowners_file_def scenario_root_only_def
        scenario_with_src_def)
  note inst = resolution_is_monotone_union [OF h, of scenario_with_src]
  from inst have u: "{''alice''} =
      (\<Union>loc \<in> set (reads_between [] lg1). declared_owners scenario_root_only loc)"
    by (rule conjunct1)
  from inst have m: "(\<forall>loc. declared_owners scenario_root_only loc \<subseteq> declared_owners scenario_with_src loc) \<longrightarrow>
      (\<exists>owners' lg2.
          get_codeowners_for_file scenario_with_src ''.'' ''src/sub/b.txt'' [] = Some (owners', lg2)
        \<and> {''alice''} \<subseteq> owners')"
    by (rule conjunct2 [THEN conjunct2])
  from m grow have "\<exists>owners' lg2.
          get_codeowners_for_file scenario_with_src ''.'' ''src/sub/b.txt'' [] = Some (owners', lg2)
        \<and> {''alice''} \<subseteq> owners'"
    by (rule mp)
  then obtain owners' lg2 where
    g: "get_codeowners_for_file scenario_with_src ''.'' ''src/sub/b.txt'' [] = Some (owners', lg2)"
    and sub: "{''alice''} \<subseteq> owners'"
    by (elim exE conjE)
  from h u g sub show ?thesis by (intro exI conjI)
qed

section \<open>The two early exits of validation\<close>

text \<open>
  C5. With an empty list of approvers \<open>validate_approvals\<close> returns \<open>False\<close> at once:
  the only event it adds is the no-approvals message, so no manifest is opened and no
  file is checked. No run with approvers ends in that log, so the outcome is distinct.
\<close>

theorem no_approvals_fast_fail:
  "validate_approvals fs dir [] changed_files lg = Some (False, lg @ [Print_no_approvals])
   \<and> reads_between lg (lg @ [Print_no_approvals]) = []
   \<and> (\<forall>approvers b lg'. approvers \<noteq> [] \<longrightarrow>
         validate_approvals fs dir approvers changed_files lg = Some (b, lg') \<longrightarrow>
         lg' \<noteq> lg @ [Print_no_approvals])"
  by (auto simp: validate_approvals_def reads_between_def split: option.splits if_splits)

theorem no_approvals_fast_fail_witness:
  "validate_approvals scenario_root_only ''.'' [] [''a.txt''] [] = Some (False, [Print_no_approvals])
   \<and> (\<exists>lg'. validate_approvals scenario_root_only ''.'' [''carol''] [''a.txt''] [] = Some (False, lg')
         \<and> lg' \<noteq> [Print_no_approvals])"
proof -
  have "map_option fst (validate_approvals scenario_root_only ''.'' [''carol''] [''a.txt''] [])
          = Some False"
    by code_simp
  then obtain lg' where
    h: "validate_approvals scenario_root_only ''.'' [''carol''] [''a.txt''] [] = Some (False, lg')"
    by auto
  have ne: "[''carol''] \<noteq> []" by simp
  note inst = no_approvals_fast_fail [of scenario_root_only "''.''" "[''a.txt'']" "[]"]
  from inst have a: "validate_approvals scenario_root_only ''.'' [] [''a.txt''] [] =
      Some (False, [] @ [Print_no_approvals])"
    by (rule conjunct1)
  from inst h ne have b: "lg' \<noteq> [] @ [Print_no_approvals]" by blast
  from a have a': "validate_approvals scenario_root_only ''.'' [] [''a.txt''] [] =
      Some (False, [Print_no_approvals])"
    by simp
  from b have b': "lg' \<noteq> [Print_no_approvals]" by simp
  from a' b' h show ?thesis by blast
qed

text \<open>
  C6. With approvers and an empty list of changed files \<open>validate_approvals\<close> returns
  \<open>True\<close> at once, without opening any manifest.
\<close>

theorem no_changed_files_pass:
  assumes "approvers \<noteq> []"
  shows "validate_approvals fs dir approvers [] lg =
           Some (True, lg @ [Print_approvers approvers, Print_no_files_changed])
    \<and> reads_between lg (lg @ [Print_approvers approvers, Print_no_files_changed]) = []"
  using assms by (simp add: validate_approvals_def reads_between_def)

theorem no_changed_files_pass_witness:
  "[''alice''] \<noteq> []
   \<and> validate_approvals scenario_root_only ''.'' [''alice''] [] [] =
         Some (True, [Print_approvers [''alice''], Print_no_files_changed])"
  using no_changed_files_pass [of "[''alice'']" scenario_root_only "''.''" "[]"] by simp

section \<open>Manifests that cannot be read\<close>

text \<open>
  C9. A manifest whose read fails for another reason than the file being absent
  contributes the empty owner set, the error is printed, which an absent file never
  causes, and the walk goes on: the resolver still returns for every path it can walk.
\<close>

theorem read_failure_is_empty_and_reported:
  assumes "fs loc = Read_error e"
  shows "read_codeowners_file fs loc lg = ({}, lg @ [Open_file loc, Print_error_reading loc e])
    \<and> (fs' loc = File_not_found \<longrightarrow>
         read_codeowners_file fs' loc lg = ({}, lg @ [Open_file loc])
         \<and> snd (read_codeowners_file fs loc lg) \<noteq> snd (read_codeowners_file fs' loc lg))
    \<and> (p_root (Path file_path) \<noteq> ''//'' \<longrightarrow>
         (\<exists>r. get_codeowners_for_file fs dir file_path lg = Some r))"
  using assms by (simp add: read_codeowners_file_def get_codeowners_returns)

theorem read_failure_is_empty_and_reported_witness:
  "scenario_unreadable_src ''./src/CODEOWNERS.md'' = Read_error ''Permission denied''
   \<and> scenario_root_only ''./src/CODEOWNERS.md'' = File_not_found
   \<and> read_codeowners_file scenario_unreadable_src ''./src/CODEOWNERS.md'' [] =
        ({}, [Open_file ''./src/CODEOWNERS.md'',
              Print_error_reading ''./src/CODEOWNERS.md'' ''Permission denied''])
   \<and> read_codeowners_file scenario_root_only ''./src/CODEOWNERS.md'' [] =
        ({}, [Open_file ''./src/CODEOWNERS.md''])
   \<and> (\<exists>r. get_codeowners_for_file scenario_unreadable_src ''.'' ''src/a.txt'' [] = Some r)"
proof -
  have e: "scenario_unreadable_src ''./src/CODEOWNERS.md'' = Read_error ''Permission denied''"
    by (simp add: scenario_unreadable_src_def)
  have n: "scenario_root_only ''./src/CODEOWNERS.md'' = File_not_found"
    by (simp add: scenario_root_only_def)
  have ok: "p_root (Path ''src/a.txt'') \<noteq> ''//''" by code_simp
  note inst = read_failure_is_empty_and_reported
    [where fs = scenario_unreadable_src and loc = "''./src/CODEOWNERS.md''"
       and e = "''Permission denied''" and lg = "[]" and fs' = scenario_root_only
       and file_path = "''src/a.txt''" and dir = "''.''", OF e]
  from inst have a: "read_codeowners_file scenario_unreadable_src ''./src/CODEOWNERS.md'' [] =
        ({}, [] @ [Open_file ''./src/CODEOWNERS.md'',
              Print_error_reading ''./src/CODEOWNERS.md'' ''Permission denied''])"
    by (rule conjunct1)
  from inst n have b: "read_codeowners_file scenario_root_only ''./src/CODEOWNERS.md'' [] =
        ({}, [] @ [Open_file ''./src/CODEOWNERS.md''])"
    by blast
  from inst ok have c: "\<exists>r. get_codeowners_for_file scenario_unreadable_src ''.'' ''src/a.txt'' [] = Some r"
    by blast
  from a have a': "read_codeowners_file scenario_unreadable_src ''./src/CODEOWNERS.md'' [] =
        ({}, [Open_file ''./src/CODEOWNERS.md'',
              Print_error_reading ''./src/CODEOWNERS.md'' ''Permission denied''])"
    by (simp only: append_Nil)
  from b have b': "read_codeowners_file scenario_root_only ''./src/CODEOWNERS.md'' [] =
        ({}, [Open_file ''./src/CODEOWNERS.md''])"
    by (simp only: append_Nil)
  from e n a' b' c show ?thesis by (intro conjI)
qed

section \<open>Termination of the walk\<close>

text \<open>
  C10. The claim is that the walk over the parents ends for every path. It does not for a
  path that begins with exactly two slashes: pathlib keeps \<^verbatim>\<open>'//'\<close> as the root, the
  parent of \<^verbatim>\<open>Path('//')\<close> is itself, and it equals neither \<^verbatim>\<open>Path('.')\<close> nor
  \<^verbatim>\<open>Path('/')\<close>. The resolver never returns for \<^verbatim>\<open>'//a/b'\<close>.
\<close>

theorem walk_never_exits_from_double_slash:
  "get_codeowners_for_file fs dir ''//a/b'' lg = None"
proof -
  have "p_root (Path ''//a/b'') = ''//''" by code_simp
  then show ?thesis by (rule get_codeowners_diverges)
qed

section \<open>Repeated resolution\<close>

text \<open>
  C7, as stated, fails: there is no cache. Resolving \<^verbatim>\<open>a.txt\<close> a second time in the
  same run opens the root manifest again, under both of its spellings.
\<close>

theorem cache_counterexample:
  "second_resolution_reads scenario_root_only ''.'' ''a.txt'' [] =
     Some [''././CODEOWNERS.md'', ''./CODEOWNERS.md'']"
  by code_simp

text \<open>
  C7, amended. Resolving the same file twice in one run gives the same owner set, and the
  second resolution opens exactly the files the first one opened: nothing is cached.
\<close>

theorem second_resolution_reads_again:
  assumes "get_codeowners_for_file fs dir file_path lg = Some (owners, lg1)"
  shows "\<exists>lg2. get_codeowners_for_file fs dir file_path lg1 = Some (owners, lg2)
     \<and> reads_between lg1 lg2 = reads_between lg lg1
     \<and> reads_between lg1 lg2 \<noteq> []"
proof -
  from assms have ok: "p_root (Path file_path) \<noteq> ''//''"
    and own: "owners = resolved_owners fs dir file_path"
    and lg1: "lg1 = lg @ resolve_events fs dir file_path"
    by (simp_all add: get_codeowners_Some_iff)
  let ?lg2 = "lg1 @ resolve_events fs dir file_path"
  from ok own have "get_codeowners_for_file fs dir file_path lg1 = Some (owners, ?lg2)"
    by (simp add: get_codeowners_returns)
  moreover have "reads_between lg1 ?lg2 = resolve_locations dir file_path"
    by (simp add: reads_between_def opened_resolve_events)
  moreover from lg1 have "reads_between lg lg1 = resolve_locations dir file_path"
    by (simp add: reads_between_def opened_resolve_events)
  moreover have "resolve_locations dir file_path \<noteq> []"
    by (simp add: resolve_locations_def)
  ultimately show ?thesis by simp
qed

theorem second_resolution_reads_again_witness:
  "\<exists>lg1 lg2. get_codeowners_for_file scenario_root_only ''.'' ''a.txt'' [] = Some ({''alice''}, lg1)
     \<and> get_codeowners_for_file scenario_root_only ''.'' ''a.txt'' lg1 = Some ({''alice''}, lg2)
     \<and> reads_between lg1 lg2 = reads_between [] lg1
     \<and> reads_between lg1 lg2 \<noteq> []"
proof -
  have "map_option fst (get_codeowners_for_file scenario_root_only ''.'' ''a.txt'' []) = Some {''alice''}"
    by code_simp
  then obtain lg1 where
    h: "get_codeowners_for_file scenario_root_only ''.'' ''a.txt'' [] = Some ({''alice''}, lg1)"
    by auto
  from second_resolution_reads_again [OF h] h show ?thesis by blast
qed

section \<open>The manifest parser\<close>

lemma split_aux_nonempty: "w \<in> set (split_aux cur s) \<Longrightarrow> w \<noteq> []"
  by (induction s arbitrary: cur) (auto split: if_splits)

lemma split_nonempty: "w \<in> set (split s) \<Longrightarrow> w \<noteq> []"
  unfolding split_def by (rule split_aux_nonempty)

lemma add_word_token: "w \<noteq> [] \<Longrightarrow> add_word owners w = owners \<union> token_owner w"
  by (auto simp: add_word_def token_owner_def)

lemma foldl_add_word:
  "(\<And>w. w \<in> set ws \<Longrightarrow> w \<noteq> []) \<Longrightarrow>
     foldl add_word owners ws = owners \<union> (\<Union>t \<in> set ws. token_owner t)"
proof (induction ws arbitrary: owners)
  case Nil
  show ?case by simp
next
  case (Cons w ws)
  have "w \<noteq> []" by (rule Cons.prems) simp
  moreover have "foldl add_word (add_word owners w) ws =
      add_word owners w \<union> (\<Union>t \<in> set ws. token_owner t)"
    by (rule Cons.IH) (simp add: Cons.prems)
  ultimately show ?case by (simp add: add_word_token Un_assoc)
qed

lemma scan_line_eq:
  "scan_line owners l =
     owners \<union> (if strip l \<noteq> [] \<and> \<not> startswith (strip l) ''#''
               then \<Union>t \<in> set (split (strip l)). token_owner t else {})"
  by (simp add: scan_line_def Let_def foldl_add_word split_nonempty)

lemma foldl_scan_line:
  "foldl scan_line owners ls =
     owners \<union> (\<Union>l \<in> set (filter (\<lambda>l. l \<noteq> [] \<and> \<not> startswith l ''#'') (map strip ls)).
                 \<Union>t \<in> set (split l). token_owner t)"
proof (induction ls arbitrary: owners)
  case Nil
  show ?case by simp
next
  case (Cons l ls)
  have "foldl scan_line owners (l # ls) = foldl scan_line (scan_line owners l) ls" by simp
  also have "\<dots> = scan_line owners l \<union>
      (\<Union>l \<in> set (filter (\<lambda>l. l \<noteq> [] \<and> \<not> startswith l ''#'') (map strip ls)).
         \<Union>t \<in> set (split l). token_owner t)"
    by (rule Cons.IH)
  also have "\<dots> = owners \<union>
      (\<Union>l \<in> set (filter (\<lambda>l. l \<noteq> [] \<and> \<not> startswith l ''#'') (map strip (l # ls))).
         \<Union>t \<in> set (split l). token_owner t)"
    by (subst scan_line_eq) (simp add: Un_assoc)
  finally show ?case .
qed

text \<open>
  C4. For every manifest text the owners parsed by \<open>read_codeowners_file\<close> are exactly
  the set the token rules describe: blank lines and comment lines are skipped after
  trimming, a token that starts with the mention marker is added without it, a token that
  starts with a slash or a star is dropped, any other token is added as it is. The line
  \<^verbatim>\<open>/docs/* @dave\<close> parses to the single owner \<^verbatim>\<open>dave\<close>.
\<close>

theorem parse_matches_token_rules:
  "parse_content content = parse_spec content
   \<and> fst (read_codeowners_file (fs(file_path := Content content)) file_path lg) = parse_spec content
   \<and> parse_content ''/docs/* @dave'' = {''dave''}"
proof -
  have a: "parse_content content = parse_spec content"
    by (simp add: parse_content_def parse_spec_def kept_lines_def foldl_scan_line)
  have b: "fst (read_codeowners_file (fs(file_path := Content content)) file_path lg) =
      parse_content content"
    by (simp add: read_codeowners_file_def)
  have c: "parse_content ''/docs/* @dave'' = {''dave''}" by code_simp
  from a b c show ?thesis by simp
qed

section \<open>Locations and the project directory\<close>

lemma split_on_not_Nil: "split_on c s \<noteq> []"
  by (induction s) (auto split: list.splits)

lemma split_on_append_sep: "split_on c (a @ c # b) = split_on c a @ split_on c b"
proof (induction a)
  case Nil
  show ?case by simp
next
  case (Cons x a)
  show ?case
  proof (cases "split_on c a")
    case Nil
    with split_on_not_Nil [of c a] show ?thesis by simp
  next
    case (Cons y ys)
    with Cons.IH show ?thesis by simp
  qed
qed

lemma split_on_no_sep: "c \<notin> set s \<Longrightarrow> split_on c s = [s]"
  by (induction s) auto

lemma split_on_pieces: "x \<in> set (split_on c s) \<Longrightarrow> c \<notin> set x"
proof (induction s arbitrary: x)
  case Nil
  then show ?case by simp
next
  case (Cons a s)
  show ?case
  proof (cases "a = c")
    case True
    with Cons show ?thesis by auto
  next
    case False
    obtain y ys where ys: "split_on c s = y # ys"
      using split_on_not_Nil [of c s] by (cases "split_on c s") auto
    with False Cons.prems have "x = a # y \<or> x \<in> set ys" by simp
    then show ?thesis
    proof
      assume "x = a # y"
      moreover from ys have "c \<notin> set y" by (intro Cons.IH) simp
      ultimately show ?thesis using False by auto
    next
      assume "x \<in> set ys"
      with ys show ?thesis by (intro Cons.IH) simp
    qed
  qed
qed

lemma split_on_join:
  "xs \<noteq> [] \<Longrightarrow> (\<And>x. x \<in> set xs \<Longrightarrow> c \<notin> set x) \<Longrightarrow> split_on c (join_with [c] xs) = xs"
proof (induction "[c]" xs rule: join_with.induct)
  case 1
  then show ?case by simp
next
  case (2 x)
  then show ?case by (simp add: split_on_no_sep)
next
  case (3 x y ys)
  have "split_on c (join_with [c] (y # ys)) = y # ys"
    by (rule 3(1)) (simp_all add: 3(3))
  moreover have "split_on c x = [x]" by (rule split_on_no_sep) (simp add: 3(3))
  ultimately show ?case by (simp add: split_on_append_sep)
qed

lemma foldl_norm_clean:
  "(\<And>x. x \<in> set xs \<Longrightarrow> x \<noteq> [] \<and> x \<noteq> ''.'' \<and> x \<noteq> ''..'') \<Longrightarrow>
     foldl (norm_step a) st xs = st @ xs"
proof (induction xs arbitrary: st)
  case Nil
  show ?case by simp
next
  case (Cons x xs)
  have x: "x \<noteq> [] \<and> x \<noteq> ''.'' \<and> x \<noteq> ''..''" by (rule Cons.prems) simp
  then have step: "norm_step a st x = st @ [x]" by (simp add: norm_step_def)
  have "foldl (norm_step a) (st @ [x]) xs = (st @ [x]) @ xs"
    by (rule Cons.IH) (simp add: Cons.prems)
  then show ?case by (simp add: step)
qed

lemma norm_step_empty: "norm_step a st [] = st"
  by (simp add: norm_step_def)

lemma norm_step_dot: "norm_step a st ''.'' = st"
  by (simp add: norm_step_def)

lemma components_join_step:
  assumes "b \<noteq> []" and "hd b \<noteq> CHR ''/''"
  shows "foldl (norm_step a) [] (split_on CHR ''/'' (join_step p b)) =
     foldl (norm_step a) (foldl (norm_step a) [] (split_on CHR ''/'' p)) (split_on CHR ''/'' b)"
proof -
  from assms have nb: "\<not> startswith b ''/''"
    by (cases b) (simp_all add: startswith_def)
  consider (empty) "p = []" | (slash) "p \<noteq> []" "endswith p ''/''"
    | (plain) "p \<noteq> []" "\<not> endswith p ''/''" by blast
  then show ?thesis
  proof cases
    case empty
    with nb show ?thesis by (simp add: join_step_def norm_step_empty)
  next
    case slash
    then have "p = butlast p @ ''/''"
      by (cases p rule: rev_cases) (simp_all add: endswith_def)
    then obtain p0 where p: "p = p0 @ ''/''" ..
    from slash nb p have "join_step p b = p0 @ CHR ''/'' # b" by (simp add: join_step_def)
    moreover from p have "split_on CHR ''/'' p = split_on CHR ''/'' p0 @ [[]]"
      using split_on_append_sep [of "CHR ''/''" p0 "[]"] by simp
    ultimately show ?thesis by (simp add: split_on_append_sep norm_step_empty)
  next
    case plain
    with nb have "join_step p b = p @ CHR ''/'' # b" by (simp add: join_step_def)
    then show ?thesis by (simp add: split_on_append_sep)
  qed
qed

lemma is_abs_join_step:
  assumes "b \<noteq> []" and "hd b \<noteq> CHR ''/''"
  shows "is_abs (join_step p b) = is_abs p"
proof -
  from assms have nb: "\<not> startswith b ''/''"
    by (cases b) (simp_all add: startswith_def)
  show ?thesis
  proof (cases p)
    case Nil
    with nb show ?thesis by (simp add: join_step_def is_abs_def startswith_def)
  next
    case (Cons x xs)
    with nb show ?thesis by (simp add: join_step_def is_abs_def startswith_def)
  qed
qed

lemma Path_tail_clean:
  assumes "x \<in> set (p_tail (Path s))"
  shows "x \<noteq> [] \<and> x \<noteq> ''.'' \<and> CHR ''/'' \<notin> set x"
proof -
  obtain r rel where sr: "splitroot s = (r, rel)" by (cases "splitroot s")
  with assms have "x \<in> set (split_on CHR ''/'' rel)" and "x \<noteq> []" and "x \<noteq> ''.''"
    by (simp_all add: Path_def)
  then show ?thesis by (simp add: split_on_pieces)
qed

lemma chain_rev_member:
  "d \<in> set (chain_rev r xs) \<Longrightarrow> p_root d = r \<and> set (p_tail d) \<subseteq> set xs"
  by (induction xs) auto

lemma ancestors_of_parent:
  assumes "d \<in> set (ancestors (parent p))"
  shows "p_root d = p_root p \<and> set (p_tail d) \<subseteq> set (p_tail p)"
proof -
  from assms have "p_root d = p_root (parent p) \<and> set (p_tail d) \<subseteq> set (rev (p_tail (parent p)))"
    unfolding ancestors_def by (rule chain_rev_member)
  moreover have "set (p_tail (parent p)) \<subseteq> set (p_tail p)"
    by (auto simp: parent_def dest: in_set_butlastD)
  ultimately show ?thesis by (auto simp: p_root_parent)
qed

lemma hd_join_with: "x \<noteq> [] \<Longrightarrow> hd (join_with sep (x # xs)) = hd x"
  by (cases xs) simp_all

lemma join_with_not_Nil: "x \<noteq> [] \<Longrightarrow> join_with sep (x # xs) \<noteq> []"
  by (cases xs) simp_all

lemma components_path_str:
  assumes root: "p_root d = []"
    and clean: "\<And>x. x \<in> set (p_tail d) \<Longrightarrow>
        x \<noteq> [] \<and> x \<noteq> ''.'' \<and> x \<noteq> ''..'' \<and> CHR ''/'' \<notin> set x"
  shows "path_str d \<noteq> [] \<and> hd (path_str d) \<noteq> CHR ''/''
     \<and> foldl (norm_step a) st (split_on CHR ''/'' (path_str d)) = st @ p_tail d"
proof (cases "p_tail d")
  case Nil
  with root show ?thesis by (simp add: path_str_def norm_step_dot)
next
  case (Cons x xs)
  from clean [of x] Cons have x: "x \<noteq> []" "CHR ''/'' \<notin> set x" by simp_all
  from root Cons have str: "path_str d = join_with ''/'' (x # xs)" by (simp add: path_str_def)
  have "split_on CHR ''/'' (join_with ''/'' (x # xs)) = x # xs"
    by (rule split_on_join) (use clean Cons in auto)
  moreover have "foldl (norm_step a) st (x # xs) = st @ (x # xs)"
    by (rule foldl_norm_clean) (use clean Cons in auto)
  moreover from x have "hd (join_with ''/'' (x # xs)) \<noteq> CHR ''/''"
    by (cases x) (auto simp: hd_join_with)
  ultimately show ?thesis using x str Cons by (simp add: join_with_not_Nil)
qed

lemma components_manifest_name:
  "foldl (norm_step a) st (split_on CHR ''/'' ''CODEOWNERS.md'') = st @ [''CODEOWNERS.md'']"
  by (simp add: norm_step_def)

lemma manifest_location_components:
  assumes root: "p_root d = []"
    and clean: "\<And>x. x \<in> set (p_tail d) \<Longrightarrow>
        x \<noteq> [] \<and> x \<noteq> ''.'' \<and> x \<noteq> ''..'' \<and> CHR ''/'' \<notin> set x"
  shows "is_abs (manifest_location dir d) = is_abs dir
     \<and> normal_components (manifest_location dir d) =
         normal_components dir @ p_tail d @ [''CODEOWNERS.md'']"
proof -
  note ps = components_path_str [OF root clean]
  have name: "''CODEOWNERS.md'' \<noteq> []" "hd ''CODEOWNERS.md'' \<noteq> CHR ''/''" by simp_all
  have loc: "manifest_location dir d = join_step (join_step dir (path_str d)) ''CODEOWNERS.md''"
    by (simp add: manifest_location_def os_path_join_def)
  have abs: "is_abs (manifest_location dir d) = is_abs dir"
    using ps by (simp add: loc is_abs_join_step)
  have "foldl (norm_step (is_abs dir)) [] (split_on CHR ''/'' (manifest_location dir d)) =
      foldl (norm_step (is_abs dir))
        (foldl (norm_step (is_abs dir)) [] (split_on CHR ''/'' (join_step dir (path_str d))))
        (split_on CHR ''/'' ''CODEOWNERS.md'')"
    unfolding loc by (rule components_join_step) simp_all
  also have "\<dots> = foldl (norm_step (is_abs dir)) [] (split_on CHR ''/'' (join_step dir (path_str d)))
      @ [''CODEOWNERS.md'']"
    by (rule components_manifest_name)
  also have "foldl (norm_step (is_abs dir)) [] (split_on CHR ''/'' (join_step dir (path_str d))) =
      foldl (norm_step (is_abs dir)) (foldl (norm_step (is_abs dir)) [] (split_on CHR ''/'' dir))
        (split_on CHR ''/'' (path_str d))"
    by (rule components_join_step) (use ps in simp_all)
  also have "\<dots> = foldl (norm_step (is_abs dir)) [] (split_on CHR ''/'' dir) @ p_tail d"
    using ps by simp
  finally show ?thesis using abs by (simp add: normal_components_def)
qed

lemma root_location_components:
  "is_abs (root_location dir) = is_abs dir
     \<and> normal_components (root_location dir) = normal_components dir @ [''CODEOWNERS.md'']"
proof -
  have loc: "root_location dir = join_step dir ''CODEOWNERS.md''"
    by (simp add: root_location_def os_path_join_def)
  have abs: "is_abs (root_location dir) = is_abs dir"
    unfolding loc by (rule is_abs_join_step) simp_all
  have "foldl (norm_step (is_abs dir)) [] (split_on CHR ''/'' (root_location dir)) =
      foldl (norm_step (is_abs dir)) (foldl (norm_step (is_abs dir)) [] (split_on CHR ''/'' dir))
        (split_on CHR ''/'' ''CODEOWNERS.md'')"
    unfolding loc by (rule components_join_step) simp_all
  also have "\<dots> = foldl (norm_step (is_abs dir)) [] (split_on CHR ''/'' dir) @ [''CODEOWNERS.md'']"
    by (rule components_manifest_name)
  finally show ?thesis using abs by (simp add: normal_components_def)
qed

lemma at_or_below_extension:
  assumes "is_abs loc = is_abs dir"
    and "normal_components loc = normal_components dir @ rest"
    and "rest = [] \<or> hd rest \<noteq> ''..''"
  shows "at_or_below dir loc"
  using assms by (cases rest) (simp_all add: at_or_below_def Let_def)

text \<open>
  C8, as stated, fails: the resolver does not make the path relative to the repository
  before it walks. For an absolute path \<^verbatim>\<open>os.path.join\<close> discards the project directory,
  so the manifests of \<^verbatim>\<open>/etc\<close> and of \<^verbatim>\<open>/\<close> are opened; for a path with a
  back-reference the manifest of the directory above the project directory is opened.
\<close>

theorem absolute_and_dotdot_paths_escape_root:
  "locations_read scenario_empty ''/builds/proj'' ''/etc/passwd'' =
      Some [''/etc/CODEOWNERS.md'', ''/CODEOWNERS.md'', ''/builds/proj/CODEOWNERS.md'']
   \<and> \<not> at_or_below ''/builds/proj'' ''/etc/CODEOWNERS.md''
   \<and> locations_read scenario_empty ''/builds/proj'' ''../x'' =
      Some [''/builds/proj/../CODEOWNERS.md'', ''/builds/proj/./CODEOWNERS.md'',
            ''/builds/proj/CODEOWNERS.md'']
   \<and> \<not> at_or_below ''/builds/proj'' ''/builds/proj/../CODEOWNERS.md''"
  by code_simp

text \<open>
  C8, amended. For every relative path without a back-reference segment the resolver
  returns, and every manifest location it opens lies at or below the project directory.
  The only normalisation is pathlib's: empty segments and \<^verbatim>\<open>'.'\<close> are dropped.
\<close>

theorem relative_paths_stay_below_root:
  assumes rel: "p_root (Path file_path) = []"
    and nodots: "''..'' \<notin> set (p_tail (Path file_path))"
  shows "\<exists>owners lg'. get_codeowners_for_file fs dir file_path lg = Some (owners, lg')
     \<and> (\<forall>loc \<in> set (reads_between lg lg'). at_or_below dir loc)"
proof -
  from rel have ok: "p_root (Path file_path) \<noteq> ''//''" by simp
  have get: "get_codeowners_for_file fs dir file_path lg =
      Some (resolved_owners fs dir file_path, lg @ resolve_events fs dir file_path)"
    using ok by (rule get_codeowners_returns)
  have reads: "reads_between lg (lg @ resolve_events fs dir file_path) =
      resolve_locations dir file_path"
    by (simp add: reads_between_def opened_resolve_events)
  have "at_or_below dir loc" if "loc \<in> set (resolve_locations dir file_path)" for loc
  proof -
    from that consider (walk) d where "d \<in> set (ancestors (parent (Path file_path)))"
        "loc = manifest_location dir d"
      | (root) "loc = root_location dir"
      by (auto simp: resolve_locations_def)
    then show ?thesis
    proof cases
      case walk
      from walk(1) have d: "p_root d = p_root (Path file_path)"
        "set (p_tail d) \<subseteq> set (p_tail (Path file_path))"
        using ancestors_of_parent by blast+
      have clean: "x \<noteq> [] \<and> x \<noteq> ''.'' \<and> x \<noteq> ''..'' \<and> CHR ''/'' \<notin> set x"
        if "x \<in> set (p_tail d)" for x
      proof -
        from that d(2) have x: "x \<in> set (p_tail (Path file_path))" by blast
        with nodots have "x \<noteq> ''..''" by blast
        with Path_tail_clean [OF x] show ?thesis by simp
      qed
      from d(1) rel have root: "p_root d = []" by simp
      note mc = manifest_location_components [OF root clean, of dir]
      have "p_tail d @ [''CODEOWNERS.md''] = [] \<or> hd (p_tail d @ [''CODEOWNERS.md'']) \<noteq> ''..''"
      proof (cases "p_tail d")
        case Nil
        then show ?thesis by simp
      next
        case (Cons x xs)
        with clean [of x] show ?thesis by simp
      qed
      with mc show ?thesis
        unfolding walk(2) by (intro at_or_below_extension [where rest = "p_tail d @ [''CODEOWNERS.md'']"]) simp_all
    next
      case root
      note rc = root_location_components [of dir]
      show ?thesis
        unfolding root
        by (rule at_or_below_extension [where rest = "[''CODEOWNERS.md'']"]) (use rc in simp_all)
    qed
  qed
  with get reads show ?thesis by simp
qed

theorem relative_paths_stay_below_root_witness:
  "p_root (Path ''src/sub/b.txt'') = []
   \<and> ''..'' \<notin> set (p_tail (Path ''src/sub/b.txt''))
   \<and> (\<exists>owners lg'. get_codeowners_for_file scenario_with_src ''.'' ''src/sub/b.txt'' [] =
          Some (owners, lg')
        \<and> (\<forall>loc \<in> set (reads_between [] lg'). at_or_below ''.'' loc))"
proof -
  have r: "p_root (Path ''src/sub/b.txt'') = []" by code_simp
  have n: "''..'' \<notin> set (p_tail (Path ''src/sub/b.txt''))" by code_simp
  from r n relative_paths_stay_below_root [OF r n, of scenario_with_src "''.''" "[]"]
  show ?thesis by (intro conjI)
qed

end
